theory Spec2Isabelle
  imports Main
begin

section \<open>Go strings, runes and UTF-8\<close>

text \<open>
  A Go \<^verbatim>\<open>string\<close> is a read-only sequence of bytes; \<^verbatim>\<open>len(s)\<close> is the number of
  bytes. It is embedded as an Isabelle \<^typ>\<open>string\<close>, a list of 8-bit characters, one
  \<^typ>\<open>char\<close> per byte. A \<^verbatim>\<open>rune\<close> (an \<^verbatim>\<open>int32\<close> code point) is an \<^typ>\<open>int\<close>; the
  service never does arithmetic on runes. Go's \<^verbatim>\<open>int\<close> is an \<^typ>\<open>int\<close> as well.

  The conversions \<^verbatim>\<open>[]rune(s)\<close> and \<^verbatim>\<open>string(r)\<close> that \<^verbatim>\<open>Reverse\<close> uses are those of
  Go's package \<^verbatim>\<open>unicode/utf8\<close>; the masks and shifts of that package are written
  as \<open>mod\<close>, \<open>div\<close> and multiplication by powers of two.
\<close>

type_synonym rune = int

definition byte :: "char \<Rightarrow> int" where
  "byte c = of_char c"

definition RuneError :: rune where
  "RuneError = 0xFFFD"

definition MaxRune :: rune where
  "MaxRune = 0x10FFFF"

text \<open>Continuation bytes lie between \<^verbatim>\<open>locb = 0x80\<close> and \<^verbatim>\<open>hicb = 0xBF\<close>.\<close>

definition contb :: "int \<Rightarrow> bool" where
  "contb b = (0x80 \<le> b \<and> b \<le> 0xBF)"

text \<open>
  The table \<^verbatim>\<open>first\<close> with \<^verbatim>\<open>acceptRanges\<close>: for a leading byte, the length of the
  sequence it starts (0 for a byte that starts none) and the range allowed for the
  second byte.
\<close>

definition seqLen :: "int \<Rightarrow> nat" where
  "seqLen b0 =
     (if 0xC2 \<le> b0 \<and> b0 \<le> 0xDF then 2
      else if 0xE0 \<le> b0 \<and> b0 \<le> 0xEF then 3
      else if 0xF0 \<le> b0 \<and> b0 \<le> 0xF4 then 4
      else 0)"

definition acceptLo :: "int \<Rightarrow> int" where
  "acceptLo b0 = (if b0 = 0xE0 then 0xA0 else if b0 = 0xF0 then 0x90 else 0x80)"

definition acceptHi :: "int \<Rightarrow> int" where
  "acceptHi b0 = (if b0 = 0xED then 0x9F else if b0 = 0xF4 then 0x8F else 0xBF)"

text \<open>
  \<^verbatim>\<open>utf8.DecodeRuneInString\<close>: the first rune of the string and its width in bytes;
  \<^verbatim>\<open>(RuneError, 0)\<close> on the empty string and \<^verbatim>\<open>(RuneError, 1)\<close> on an invalid or
  incomplete encoding.
\<close>

fun DecodeRuneInString :: "string \<Rightarrow> rune \<times> nat" where
  "DecodeRuneInString [] = (RuneError, 0)"
| "DecodeRuneInString (c0 # cs) =
     (let s0 = byte c0 in
      if s0 < 0x80 then (s0, 1)
      else if seqLen s0 = 0 then (RuneError, 1)
      else if length (c0 # cs) < seqLen s0 then (RuneError, 1)
      else
        let s1 = byte (cs ! 0) in
        if s1 < acceptLo s0 \<or> acceptHi s0 < s1 then (RuneError, 1)
        else if seqLen s0 \<le> 2 then ((s0 mod 32) * 64 + s1 mod 64, 2)
        else
          let s2 = byte (cs ! 1) in
          if \<not> contb s2 then (RuneError, 1)
          else if seqLen s0 \<le> 3 then
            ((s0 mod 16) * 4096 + (s1 mod 64) * 64 + s2 mod 64, 3)
          else
            let s3 = byte (cs ! 2) in
            if \<not> contb s3 then (RuneError, 1)
            else ((s0 mod 8) * 262144 + (s1 mod 64) * 4096 + (s2 mod 64) * 64
                    + s3 mod 64, 4))"

text \<open>
  \<^verbatim>\<open>[]rune(s)\<close>: the runes of \<open>s\<close> in order, decoded one after the other; each invalid
  byte yields one \<^verbatim>\<open>RuneError\<close>.
\<close>

function stringToRunes :: "string \<Rightarrow> rune list" where
  "stringToRunes [] = []"
| "stringToRunes (c # cs) =
     fst (DecodeRuneInString (c # cs))
       # stringToRunes (drop (snd (DecodeRuneInString (c # cs))) (c # cs))"
  by pat_completeness auto
termination
proof (relation "measure length")
  show "wf (measure length)" by simp
next
  fix c :: char and cs :: string
  have "1 \<le> snd (DecodeRuneInString (c # cs))"
    by (simp add: Let_def)
  then show "(drop (snd (DecodeRuneInString (c # cs))) (c # cs), c # cs) \<in> measure length"
    by simp
qed

text \<open>\<^verbatim>\<open>utf8.RuneCountInString\<close>: the number of runes of \<open>s\<close>.\<close>

definition RuneCountInString :: "string \<Rightarrow> int" where
  "RuneCountInString s = int (length (stringToRunes s))"

text \<open>
  \<^verbatim>\<open>utf8.ValidString\<close>: \<open>s\<close> consists entirely of valid encodings, that is, no decoding
  step reports \<^verbatim>\<open>RuneError\<close> with width 1.
\<close>

function ValidString :: "string \<Rightarrow> bool" where
  "ValidString [] = True"
| "ValidString (c # cs) =
     (\<not> (fst (DecodeRuneInString (c # cs)) = RuneError
          \<and> snd (DecodeRuneInString (c # cs)) = 1)
      \<and> ValidString (drop (snd (DecodeRuneInString (c # cs))) (c # cs)))"
  by pat_completeness auto
termination
proof (relation "measure length")
  show "wf (measure length)" by simp
next
  fix c :: char and cs :: string
  have "1 \<le> snd (DecodeRuneInString (c # cs))"
    by (simp add: Let_def)
  then show "(drop (snd (DecodeRuneInString (c # cs))) (c # cs), c # cs) \<in> measure length"
    by simp
qed

text \<open>
  \<^verbatim>\<open>utf8.AppendRune\<close>: the UTF-8 encoding of a rune. A rune out of range (negative as
  an \<^verbatim>\<open>int32\<close>, so above \<^verbatim>\<open>MaxRune\<close> as a \<^verbatim>\<open>uint32\<close>) or in the surrogate range is
  encoded as \<^verbatim>\<open>RuneError\<close>.
\<close>

definition EncodeRune :: "rune \<Rightarrow> string" where
  "EncodeRune r =
     (if 0 \<le> r \<and> r \<le> 0x7F then [char_of r]
      else if 0 \<le> r \<and> r \<le> 0x7FF then
        [char_of (0xC0 + r div 64), char_of (0x80 + r mod 64)]
      else if r < 0 \<or> MaxRune < r \<or> (0xD800 \<le> r \<and> r \<le> 0xDFFF) then
        [char_of (0xEF::int), char_of (0xBF::int), char_of (0xBD::int)]
      else if r \<le> 0xFFFF then
        [char_of (0xE0 + r div 4096), char_of (0x80 + (r div 64) mod 64),
         char_of (0x80 + r mod 64)]
      else
        [char_of (0xF0 + r div 262144), char_of (0x80 + (r div 4096) mod 64),
         char_of (0x80 + (r div 64) mod 64), char_of (0x80 + r mod 64)])"

text \<open>\<^verbatim>\<open>string(r)\<close> for a rune slice \<open>r\<close>: the concatenated encodings.\<close>

definition runesToString :: "rune list \<Rightarrow> string" where
  "runesToString rs = concat (map EncodeRune rs)"

text \<open>A rune that \<^verbatim>\<open>utf8.ValidRune\<close> accepts.\<close>

definition ValidRune :: "rune \<Rightarrow> bool" where
  "ValidRune r = ((0 \<le> r \<and> r < 0xD800) \<or> (0xDFFF < r \<and> r \<le> MaxRune))"

text \<open>A string of bytes below \<^verbatim>\<open>utf8.RuneSelf = 0x80\<close> only.\<close>

definition isASCII :: "string \<Rightarrow> bool" where
  "isASCII s = list_all (\<lambda>c. byte c < 0x80) s"

text \<open>A lowercase letter of ASCII, \<^verbatim>\<open>'a'\<close> to \<^verbatim>\<open>'z'\<close>.\<close>

definition asciiLower :: "char \<Rightarrow> bool" where
  "asciiLower c = (0x61 \<le> byte c \<and> byte c \<le> 0x7A)"

section \<open>Package \<^verbatim>\<open>strings\<close>: \<^verbatim>\<open>ToUpper\<close>\<close>

text \<open>
  \<^verbatim>\<open>unicode.ToUpper\<close> maps an ASCII rune by the letter range \<^verbatim>\<open>'a'..'z'\<close> and any other
  rune through the Unicode case tables. The tables are not part of the service, so the
  lookup \<^verbatim>\<open>unicode.To(unicode.UpperCase, r)\<close> is the parameter \<open>caseTo\<close>.
  \<^verbatim>\<open>strings.ToUpper\<close> is \<^verbatim>\<open>strings.Map\<close> of \<^verbatim>\<open>unicode.ToUpper\<close>; its shortcut for a
  string of ASCII bytes computes the same bytes.
\<close>

definition unicode_ToUpper :: "(rune \<Rightarrow> rune) \<Rightarrow> rune \<Rightarrow> rune" where
  "unicode_ToUpper caseTo r =
     (if r \<le> 0x7F then (if 0x61 \<le> r \<and> r \<le> 0x7A then r - (0x61 - 0x41) else r)
      else caseTo r)"

text \<open>
  \<^verbatim>\<open>strings.Map\<close>: every rune of \<open>s\<close> is replaced by its image, and dropped when the
  image is negative.
\<close>

definition strings_Map :: "(rune \<Rightarrow> rune) \<Rightarrow> string \<Rightarrow> string" where
  "strings_Map mapping s =
     runesToString (filter (\<lambda>r. 0 \<le> r) (map mapping (stringToRunes s)))"

definition strings_ToUpper :: "(rune \<Rightarrow> rune) \<Rightarrow> string \<Rightarrow> string" where
  "strings_ToUpper caseTo s = strings_Map (unicode_ToUpper caseTo) s"

section \<open>The string service\<close>

text \<open>
  A Go \<^verbatim>\<open>error\<close> made by \<^verbatim>\<open>errors.New\<close> carries its message, which \<^verbatim>\<open>Error()\<close> returns.
  A nil error is \<open>None\<close>.
\<close>

datatype error = errorString string

fun Error :: "error \<Rightarrow> string" where
  "Error (errorString m) = m"

definition ErrEmpty :: error where
  "ErrEmpty = errorString ''empty string''"

text \<open>
  Run-time panics: an index or a slice bound out of range, and a failed type assertion.
  A computation that may panic returns \<open>Inl\<close> of the panic or \<open>Inr\<close> of its results.
\<close>

datatype panic = IndexOutOfRange | SliceBoundsOutOfRange | TypeAssertionFailed

type_synonym 'a result = "panic + 'a"

text \<open>The interface \<^verbatim>\<open>StringService\<close>: any implementation may panic.\<close>

record StringService =
  Uppercase :: "string \<Rightarrow> (string \<times> error option) result"
  Count :: "string \<Rightarrow> int result"
  Reverse :: "string \<Rightarrow> (string \<times> error option) result"
  Truncate :: "string \<Rightarrow> int \<Rightarrow> (string \<times> error option) result"

text \<open>The methods of the implementation \<^verbatim>\<open>stringService\<close>.\<close>

definition stringService_Uppercase :: "(rune \<Rightarrow> rune) \<Rightarrow> string \<Rightarrow> string \<times> error option" where
  "stringService_Uppercase caseTo s =
     (if s = [] then ([], Some ErrEmpty) else (strings_ToUpper caseTo s, None))"

definition stringService_Count :: "string \<Rightarrow> int" where
  "stringService_Count s = int (length s)"

text \<open>
  The loop of \<^verbatim>\<open>Reverse\<close>, with its two counters and the rune slice as state. Each
  iteration reads and writes \<^verbatim>\<open>r[i]\<close> and \<^verbatim>\<open>r[j]\<close>, which panic out of range.
\<close>

function reverse_loop :: "int \<Rightarrow> int \<Rightarrow> rune list \<Rightarrow> rune list result" where
  "reverse_loop i j r =
     (if i < int (length r) div 2 then
        (if 0 \<le> i \<and> i < int (length r) \<and> 0 \<le> j \<and> j < int (length r)
         then reverse_loop (i + 1) (j - 1) (r[nat i := r ! nat j, nat j := r ! nat i])
         else Inl IndexOutOfRange)
      else Inr r)"
  by pat_completeness auto
termination
  by (relation "measure (\<lambda>(i, j, r). nat (int (length r) div 2 - i))") auto

declare reverse_loop.simps [simp del]

definition stringService_Reverse :: "string \<Rightarrow> (string \<times> error option) result" where
  "stringService_Reverse s =
     (if s = [] then Inr ([], Some ErrEmpty)
      else
        let r = stringToRunes s in
        case reverse_loop 0 (int (length r) - 1) r of
          Inl p \<Rightarrow> Inl p
        | Inr r' \<Rightarrow> Inr (runesToString r', None))"

text \<open>The slice expression \<^verbatim>\<open>s[:l]\<close>: it panics unless \<open>0 \<le> l \<le> len(s)\<close>.\<close>

definition slice_to :: "string \<Rightarrow> int \<Rightarrow> string result" where
  "slice_to s l =
     (if 0 \<le> l \<and> l \<le> int (length s) then Inr (take (nat l) s)
      else Inl SliceBoundsOutOfRange)"

definition stringService_Truncate :: "string \<Rightarrow> int \<Rightarrow> (string \<times> error option) result" where
  "stringService_Truncate s l =
     (if s = [] then Inr ([], Some ErrEmpty)
      else case slice_to s l of Inl p \<Rightarrow> Inl p | Inr v \<Rightarrow> Inr (v, None))"

definition stringService :: "(rune \<Rightarrow> rune) \<Rightarrow> StringService" where
  "stringService caseTo =
     \<lparr>Uppercase = (\<lambda>s. Inr (stringService_Uppercase caseTo s)),
      Count = (\<lambda>s. Inr (stringService_Count s)),
      Reverse = stringService_Reverse,
      Truncate = stringService_Truncate\<rparr>"

section \<open>Requests, responses and endpoints\<close>

record stringRequest =
  S :: string

record uppercaseResponse =
  V :: string
  Err :: string

record countResponse =
  V :: int

record reverseResponse =
  V :: string
  Err :: string

record truncateRequest =
  S :: string
  L :: int

record truncateResponse =
  V :: string
  Err :: string

text \<open>
  The values that travel as \<^verbatim>\<open>interface{}\<close> between the decoders, the endpoints and the
  encoder.
\<close>

datatype iface =
    StringRequest stringRequest
  | TruncateRequest truncateRequest
  | UppercaseResponse uppercaseResponse
  | CountResponse countResponse
  | ReverseResponse reverseResponse
  | TruncateResponse truncateResponse

text \<open>
  An endpoint takes the decoded request and returns the response with a transport-level
  error (always nil here). The context argument is unused and left out. The type
  assertion on the request panics on a value of another type.
\<close>

definition makeUppercaseEndpoint :: "StringService \<Rightarrow> iface \<Rightarrow> (iface \<times> error option) result" where
  "makeUppercaseEndpoint svc request =
     (case request of
        StringRequest req \<Rightarrow>
          (case Uppercase svc (stringRequest.S req) of
             Inl p \<Rightarrow> Inl p
           | Inr (v, err) \<Rightarrow>
               (case err of
                  Some e \<Rightarrow>
                    Inr (UppercaseResponse \<lparr>uppercaseResponse.V = v, Err = Error e\<rparr>, None)
                | None \<Rightarrow>
                    Inr (UppercaseResponse \<lparr>uppercaseResponse.V = v, Err = []\<rparr>, None)))
      | _ \<Rightarrow> Inl TypeAssertionFailed)"

definition makeCountEndpoint :: "StringService \<Rightarrow> iface \<Rightarrow> (iface \<times> error option) result" where
  "makeCountEndpoint svc request =
     (case request of
        StringRequest req \<Rightarrow>
          (case Count svc (stringRequest.S req) of
             Inl p \<Rightarrow> Inl p
           | Inr v \<Rightarrow> Inr (CountResponse \<lparr>countResponse.V = v\<rparr>, None))
      | _ \<Rightarrow> Inl TypeAssertionFailed)"

definition makeReverseEndpoint :: "StringService \<Rightarrow> iface \<Rightarrow> (iface \<times> error option) result" where
  "makeReverseEndpoint svc request =
     (case request of
        StringRequest req \<Rightarrow>
          (case Reverse svc (stringRequest.S req) of
             Inl p \<Rightarrow> Inl p
           | Inr (v, err) \<Rightarrow>
               (case err of
                  Some e \<Rightarrow>
                    Inr (UppercaseResponse \<lparr>uppercaseResponse.V = v, Err = Error e\<rparr>, None)
                | None \<Rightarrow>
                    Inr (UppercaseResponse \<lparr>uppercaseResponse.V = v, Err = []\<rparr>, None)))
      | _ \<Rightarrow> Inl TypeAssertionFailed)"

definition makeTruncateEndpoint :: "StringService \<Rightarrow> iface \<Rightarrow> (iface \<times> error option) result" where
  "makeTruncateEndpoint svc request =
     (case request of
        TruncateRequest req \<Rightarrow>
          (case Truncate svc (truncateRequest.S req) (L req) of
             Inl p \<Rightarrow> Inl p
           | Inr (v, err) \<Rightarrow>
               (case err of
                  Some e \<Rightarrow>
                    Inr (TruncateResponse \<lparr>truncateResponse.V = v, Err = Error e\<rparr>, None)
                | None \<Rightarrow>
                    Inr (TruncateResponse \<lparr>truncateResponse.V = v, Err = []\<rparr>, None)))
      | _ \<Rightarrow> Inl TypeAssertionFailed)"

section \<open>Bytes and the digits of a rune\<close>

lemma byte_range: "0 \<le> byte c \<and> byte c < 256"
proof -
  have "byte c = int (of_char c)" by (simp add: byte_def of_nat_of_char)
  moreover have "(of_char c :: nat) < 256" by simp
  ultimately show ?thesis by linarith
qed

lemma char_of_byte: "char_of (byte c) = c"
  by (simp add: byte_def)

lemma byte_char_of: "0 \<le> n \<Longrightarrow> n < 256 \<Longrightarrow> byte (char_of (n::int)) = n"
  by (simp add: byte_def)

lemma lead2_mod: "0xC0 \<le> s \<Longrightarrow> s \<le> 0xDF \<Longrightarrow> s mod 32 = s - (0xC0::int)"
  by (rule int_mod_pos_eq [of _ _ 6]) simp_all

lemma lead3_mod: "0xE0 \<le> s \<Longrightarrow> s \<le> 0xEF \<Longrightarrow> s mod 16 = s - (0xE0::int)"
  by (rule int_mod_pos_eq [of _ _ 14]) simp_all

lemma lead4_mod: "0xF0 \<le> s \<Longrightarrow> s \<le> 0xF7 \<Longrightarrow> s mod 8 = s - (0xF0::int)"
  by (rule int_mod_pos_eq [of _ _ 30]) simp_all

lemma cont_mod: "0x80 \<le> s \<Longrightarrow> s \<le> 0xBF \<Longrightarrow> s mod 64 = s - (0x80::int)"
  by (rule int_mod_pos_eq [of _ _ 2]) simp_all

lemma div_mod_64:
  fixes h l :: int
  assumes "0 \<le> l" "l < 64"
  shows "(h * 64 + l) div 64 = h" "(h * 64 + l) mod 64 = l"
proof -
  have e: "h * 64 + l = 64 * h + l" by simp
  show "(h * 64 + l) div 64 = h"
    by (rule int_div_pos_eq [OF e]) (use assms in simp_all)
  show "(h * 64 + l) mod 64 = l"
    by (rule int_mod_pos_eq [OF e]) (use assms in simp_all)
qed

lemma split4096: "(r::int) = (r div 4096) * 4096 + ((r div 64) mod 64) * 64 + r mod 64"
proof -
  have "r div 4096 = (r div 64) div 64"
    using zdiv_zmult2_eq [of 64 r 64] by simp
  moreover have "r div 64 = ((r div 64) div 64) * 64 + (r div 64) mod 64"
    by simp
  moreover have "r = (r div 64) * 64 + r mod 64"
    by simp
  ultimately show ?thesis by linarith
qed

lemma split262144:
  "(r::int) = (r div 262144) * 262144 + ((r div 4096) mod 64) * 4096
                + ((r div 64) mod 64) * 64 + r mod 64"
proof -
  have "r div 262144 = (r div 4096) div 64"
    using zdiv_zmult2_eq [of 64 r 4096] by simp
  moreover have "r div 4096 = ((r div 4096) div 64) * 64 + (r div 4096) mod 64"
    by simp
  ultimately have "(r div 4096) * 4096 = (r div 262144) * 262144 + ((r div 4096) mod 64) * 4096"
    by linarith
  then show ?thesis using split4096 [of r] by linarith
qed

lemma digits2:
  fixes h a :: int
  assumes "0 \<le> a" "a < 64"
  shows "(h * 64 + a) div 64 = h" "(h * 64 + a) mod 64 = a"
  using assms div_mod_64 by simp_all

lemma digits3:
  fixes h a b :: int
  assumes "0 \<le> a" "a < 64" "0 \<le> b" "b < 64"
  shows "(h * 4096 + a * 64 + b) div 4096 = h"
    and "((h * 4096 + a * 64 + b) div 64) mod 64 = a"
    and "(h * 4096 + a * 64 + b) mod 64 = b"
proof -
  let ?r = "h * 4096 + a * 64 + b"
  have e1: "?r = 4096 * h + (a * 64 + b)" by simp
  show "?r div 4096 = h"
    by (rule int_div_pos_eq [OF e1]) (use assms in simp_all)
  have e2: "?r = (h * 64 + a) * 64 + b" by simp
  have d: "?r div 64 = h * 64 + a"
    unfolding e2 using assms by (simp only: div_mod_64)
  show "(?r div 64) mod 64 = a"
    unfolding d using assms by (simp only: div_mod_64)
  show "?r mod 64 = b"
    unfolding e2 using assms by (simp only: div_mod_64)
qed

lemma digits4:
  fixes h a b c :: int
  assumes "0 \<le> a" "a < 64" "0 \<le> b" "b < 64" "0 \<le> c" "c < 64"
  shows "(h * 262144 + a * 4096 + b * 64 + c) div 262144 = h"
    and "((h * 262144 + a * 4096 + b * 64 + c) div 4096) mod 64 = a"
    and "((h * 262144 + a * 4096 + b * 64 + c) div 64) mod 64 = b"
    and "(h * 262144 + a * 4096 + b * 64 + c) mod 64 = c"
proof -
  let ?r = "h * 262144 + a * 4096 + b * 64 + c"
  have e1: "?r = 262144 * h + (a * 4096 + b * 64 + c)" by simp
  show "?r div 262144 = h"
    by (rule int_div_pos_eq [OF e1]) (use assms in simp_all)
  have e2: "?r = 4096 * (h * 64 + a) + (b * 64 + c)" by simp
  have d2: "?r div 4096 = h * 64 + a"
    by (rule int_div_pos_eq [OF e2]) (use assms in simp_all)
  show "(?r div 4096) mod 64 = a"
    unfolding d2 using assms by (simp only: div_mod_64)
  have e3: "?r = ((h * 64 + a) * 64 + b) * 64 + c" by simp
  have d3: "?r div 64 = (h * 64 + a) * 64 + b"
    unfolding e3 using assms by (simp only: div_mod_64)
  show "(?r div 64) mod 64 = b"
    unfolding d3 using assms by (simp only: div_mod_64)
  show "?r mod 64 = c"
    unfolding e3 using assms by (simp only: div_mod_64)
qed

section \<open>Decoding one rune\<close>

text \<open>
  The decoder, by the shape of the input: an ASCII byte, an error of width 1, or a
  well-formed sequence of two, three or four bytes with its payload bits.
\<close>

lemma seqLen_cases:
  "seqLen b = 0 \<or> seqLen b = 2 \<and> 0xC2 \<le> b \<and> b \<le> 0xDF
   \<or> seqLen b = 3 \<and> 0xE0 \<le> b \<and> b \<le> 0xEF
   \<or> seqLen b = 4 \<and> 0xF0 \<le> b \<and> b \<le> 0xF4"
  by (simp add: seqLen_def)

lemma Decode_ascii:
  "byte c0 < 0x80 \<Longrightarrow> DecodeRuneInString (c0 # cs) = (byte c0, 1)"
  by simp

lemma Decode_two:
  assumes "0xC2 \<le> byte c0" "byte c0 \<le> 0xDF" "0x80 \<le> byte c1" "byte c1 \<le> 0xBF"
  shows "DecodeRuneInString (c0 # c1 # t) = ((byte c0 - 0xC0) * 64 + (byte c1 - 0x80), 2)"
proof -
  have len: "seqLen (byte c0) = 2" using assms by (simp add: seqLen_def)
  have acc: "acceptLo (byte c0) = 0x80" "acceptHi (byte c0) = 0xBF"
    using assms by (simp_all add: acceptLo_def acceptHi_def)
  have m: "byte c0 mod 32 = byte c0 - 0xC0" "byte c1 mod 64 = byte c1 - 0x80"
    using assms by (simp_all add: lead2_mod cont_mod)
  show ?thesis
    using assms by (simp add: Let_def len acc m)
qed

lemma Decode_three:
  assumes "0xE0 \<le> byte c0" "byte c0 \<le> 0xEF"
    and "acceptLo (byte c0) \<le> byte c1" "byte c1 \<le> acceptHi (byte c0)"
    and "0x80 \<le> byte c2" "byte c2 \<le> 0xBF"
  shows "DecodeRuneInString (c0 # c1 # c2 # t)
           = ((byte c0 - 0xE0) * 4096 + (byte c1 - 0x80) * 64 + (byte c2 - 0x80), 3)"
proof -
  have len: "seqLen (byte c0) = 3" using assms by (simp add: seqLen_def)
  have c1: "0x80 \<le> byte c1" "byte c1 \<le> 0xBF"
    using assms by (simp_all add: acceptLo_def acceptHi_def split: if_splits)
  have m: "byte c0 mod 16 = byte c0 - 0xE0" "byte c1 mod 64 = byte c1 - 0x80"
          "byte c2 mod 64 = byte c2 - 0x80"
    using assms c1 by (simp_all add: lead3_mod cont_mod)
  have acc: "\<not> (byte c1 < acceptLo (byte c0) \<or> acceptHi (byte c0) < byte c1)"
    using assms by simp
  show ?thesis
    using assms(1,5,6) by (simp add: Let_def len acc m contb_def del: de_Morgan_disj)
qed

lemma Decode_four:
  assumes "0xF0 \<le> byte c0" "byte c0 \<le> 0xF4"
    and "acceptLo (byte c0) \<le> byte c1" "byte c1 \<le> acceptHi (byte c0)"
    and "0x80 \<le> byte c2" "byte c2 \<le> 0xBF"
    and "0x80 \<le> byte c3" "byte c3 \<le> 0xBF"
  shows "DecodeRuneInString (c0 # c1 # c2 # c3 # t)
           = ((byte c0 - 0xF0) * 262144 + (byte c1 - 0x80) * 4096
                + (byte c2 - 0x80) * 64 + (byte c3 - 0x80), 4)"
proof -
  have len: "seqLen (byte c0) = 4" using assms by (simp add: seqLen_def)
  have c1: "0x80 \<le> byte c1" "byte c1 \<le> 0xBF"
    using assms by (simp_all add: acceptLo_def acceptHi_def split: if_splits)
  have m: "byte c0 mod 8 = byte c0 - 0xF0" "byte c1 mod 64 = byte c1 - 0x80"
          "byte c2 mod 64 = byte c2 - 0x80" "byte c3 mod 64 = byte c3 - 0x80"
    using assms c1 by (simp_all add: lead4_mod cont_mod)
  have acc: "\<not> (byte c1 < acceptLo (byte c0) \<or> acceptHi (byte c0) < byte c1)"
    using assms by simp
  show ?thesis
    using assms(1,5-8) by (simp add: Let_def len acc m contb_def del: de_Morgan_disj)
qed

lemma Decode_cases [case_names ascii err two three four]:
  obtains
    "byte c0 < 0x80" "DecodeRuneInString (c0 # cs) = (byte c0, 1)"
  | "DecodeRuneInString (c0 # cs) = (RuneError, 1)"
  | c1 t where "cs = c1 # t" "0xC2 \<le> byte c0" "byte c0 \<le> 0xDF"
      "0x80 \<le> byte c1" "byte c1 \<le> 0xBF"
      "DecodeRuneInString (c0 # cs) = ((byte c0 - 0xC0) * 64 + (byte c1 - 0x80), 2)"
  | c1 c2 t where "cs = c1 # c2 # t" "0xE0 \<le> byte c0" "byte c0 \<le> 0xEF"
      "acceptLo (byte c0) \<le> byte c1" "byte c1 \<le> acceptHi (byte c0)"
      "0x80 \<le> byte c2" "byte c2 \<le> 0xBF"
      "DecodeRuneInString (c0 # cs)
         = ((byte c0 - 0xE0) * 4096 + (byte c1 - 0x80) * 64 + (byte c2 - 0x80), 3)"
  | c1 c2 c3 t where "cs = c1 # c2 # c3 # t" "0xF0 \<le> byte c0" "byte c0 \<le> 0xF4"
      "acceptLo (byte c0) \<le> byte c1" "byte c1 \<le> acceptHi (byte c0)"
      "0x80 \<le> byte c2" "byte c2 \<le> 0xBF" "0x80 \<le> byte c3" "byte c3 \<le> 0xBF"
      "DecodeRuneInString (c0 # cs)
         = ((byte c0 - 0xF0) * 262144 + (byte c1 - 0x80) * 4096
              + (byte c2 - 0x80) * 64 + (byte c3 - 0x80), 4)"
proof (cases "byte c0 < 0x80")
  case True
  then show ?thesis using that(1) by simp
next
  case hi: False
  consider "seqLen (byte c0) = 0"
    | "seqLen (byte c0) = 2" "0xC2 \<le> byte c0" "byte c0 \<le> 0xDF"
    | "seqLen (byte c0) = 3" "0xE0 \<le> byte c0" "byte c0 \<le> 0xEF"
    | "seqLen (byte c0) = 4" "0xF0 \<le> byte c0" "byte c0 \<le> 0xF4"
    using seqLen_cases [of "byte c0"] by auto
  then show ?thesis
  proof cases
    case 1
    then show ?thesis using hi that(2) by (simp add: Let_def)
  next
    case 2
    have acc: "acceptLo (byte c0) = 0x80" "acceptHi (byte c0) = 0xBF"
      using 2 by (simp_all add: acceptLo_def acceptHi_def)
    show ?thesis
    proof (cases cs)
      case Nil
      then show ?thesis using hi 2 that(2) by (simp add: Let_def)
    next
      case (Cons c1 t)
      show ?thesis
      proof (cases "0x80 \<le> byte c1 \<and> byte c1 \<le> 0xBF")
        case True
        then show ?thesis
          using that(3) [of c1 t] Cons 2 Decode_two [of c0 c1 t] by simp
      next
        case False
        then show ?thesis
          using hi 2 Cons acc that(2) by (auto simp: Let_def)
      qed
    qed
  next
    case 3
    show ?thesis
    proof (cases "\<exists>c1 c2 t. cs = c1 # c2 # t")
      case False
      then have "length (c0 # cs) < 3"
        by (cases cs; cases "tl cs") auto
      then show ?thesis using hi 3 that(2) by (simp add: Let_def)
    next
      case True
      then obtain c1 c2 t where cs: "cs = c1 # c2 # t" by blast
      show ?thesis
      proof (cases "acceptLo (byte c0) \<le> byte c1 \<and> byte c1 \<le> acceptHi (byte c0)
                     \<and> 0x80 \<le> byte c2 \<and> byte c2 \<le> 0xBF")
        case True
        then show ?thesis
          using that(4) [of c1 c2 t] cs 3 Decode_three [of c0 c1 c2 t] by simp
      next
        case False
        then show ?thesis
          using hi 3 cs that(2) by (auto simp: Let_def contb_def)
      qed
    qed
  next
    case 4
    show ?thesis
    proof (cases "\<exists>c1 c2 c3 t. cs = c1 # c2 # c3 # t")
      case False
      then have "length (c0 # cs) < 4"
        by (cases cs; cases "tl cs"; cases "tl (tl cs)") auto
      then show ?thesis using hi 4 that(2) by (simp add: Let_def)
    next
      case True
      then obtain c1 c2 c3 t where cs: "cs = c1 # c2 # c3 # t" by blast
      show ?thesis
      proof (cases "acceptLo (byte c0) \<le> byte c1 \<and> byte c1 \<le> acceptHi (byte c0)
                     \<and> 0x80 \<le> byte c2 \<and> byte c2 \<le> 0xBF
                     \<and> 0x80 \<le> byte c3 \<and> byte c3 \<le> 0xBF")
        case True
        then show ?thesis
          using that(5) [of c1 c2 c3 t] cs 4 Decode_four [of c0 c1 c2 c3 t] by simp
      next
        case False
        then show ?thesis
          using hi 4 cs that(2) by (auto simp: Let_def contb_def)
      qed
    qed
  qed
qed

text \<open>The range of the rune a well-formed sequence decodes to.\<close>

lemma three_range:
  fixes s0 s1 s2 :: int
  assumes "0xE0 \<le> s0" "s0 \<le> 0xEF" "acceptLo s0 \<le> s1" "s1 \<le> acceptHi s0"
    and "0x80 \<le> s2" "s2 \<le> 0xBF"
  shows "0x800 \<le> (s0 - 0xE0) * 4096 + (s1 - 0x80) * 64 + (s2 - 0x80)"
    and "(s0 - 0xE0) * 4096 + (s1 - 0x80) * 64 + (s2 - 0x80) \<le> 0xFFFF"
    and "\<not> (0xD800 \<le> (s0 - 0xE0) * 4096 + (s1 - 0x80) * 64 + (s2 - 0x80)
            \<and> (s0 - 0xE0) * 4096 + (s1 - 0x80) * 64 + (s2 - 0x80) \<le> 0xDFFF)"
proof -
  have s1: "0x80 \<le> s1" "s1 \<le> 0xBF"
    using assms by (simp_all add: acceptLo_def acceptHi_def split: if_splits)
  have lo: "s0 = 0xE0 \<longrightarrow> 0xA0 \<le> s1"
    using assms by (auto simp: acceptLo_def split: if_splits)
  have hi: "s0 = 0xED \<longrightarrow> s1 \<le> 0x9F"
    using assms by (auto simp: acceptHi_def split: if_splits)
  show "0x800 \<le> (s0 - 0xE0) * 4096 + (s1 - 0x80) * 64 + (s2 - 0x80)"
    using assms(1,5) s1 lo by (cases "s0 = 0xE0") auto
  show "(s0 - 0xE0) * 4096 + (s1 - 0x80) * 64 + (s2 - 0x80) \<le> 0xFFFF"
    using assms(2,6) s1 by simp
  consider "s0 < 0xED" | "s0 = 0xED" | "0xED < s0" by linarith
  then show "\<not> (0xD800 \<le> (s0 - 0xE0) * 4096 + (s1 - 0x80) * 64 + (s2 - 0x80)
            \<and> (s0 - 0xE0) * 4096 + (s1 - 0x80) * 64 + (s2 - 0x80) \<le> 0xDFFF)"
  proof cases
    case 1 then show ?thesis using s1 assms(5,6) by simp
  next
    case 2 then show ?thesis using s1 hi assms(5,6) by simp
  next
    case 3 then show ?thesis using s1 assms(5,6) by simp
  qed
qed

lemma four_range:
  fixes s0 s1 s2 s3 :: int
  assumes "0xF0 \<le> s0" "s0 \<le> 0xF4" "acceptLo s0 \<le> s1" "s1 \<le> acceptHi s0"
    and "0x80 \<le> s2" "s2 \<le> 0xBF" "0x80 \<le> s3" "s3 \<le> 0xBF"
  shows "0xFFFF < (s0 - 0xF0) * 262144 + (s1 - 0x80) * 4096 + (s2 - 0x80) * 64 + (s3 - 0x80)"
    and "(s0 - 0xF0) * 262144 + (s1 - 0x80) * 4096 + (s2 - 0x80) * 64 + (s3 - 0x80) \<le> 0x10FFFF"
proof -
  have s1: "0x80 \<le> s1" "s1 \<le> 0xBF"
    using assms by (simp_all add: acceptLo_def acceptHi_def split: if_splits)
  have lo: "s0 = 0xF0 \<longrightarrow> 0x90 \<le> s1"
    using assms by (auto simp: acceptLo_def split: if_splits)
  have hi: "s0 = 0xF4 \<longrightarrow> s1 \<le> 0x8F"
    using assms by (auto simp: acceptHi_def split: if_splits)
  show "0xFFFF < (s0 - 0xF0) * 262144 + (s1 - 0x80) * 4096 + (s2 - 0x80) * 64 + (s3 - 0x80)"
    using assms(1,5,7) s1 lo by (cases "s0 = 0xF0") auto
  show "(s0 - 0xF0) * 262144 + (s1 - 0x80) * 4096 + (s2 - 0x80) * 64 + (s3 - 0x80) \<le> 0x10FFFF"
    using assms(2,6,8) s1 hi by (cases "s0 = 0xF4") auto
qed

lemma Decode_ValidRune: "ValidRune (fst (DecodeRuneInString (c0 # cs)))"
proof (cases rule: Decode_cases [of c0 cs])
  case ascii
  show ?thesis
    unfolding ascii(2) fst_conv ValidRune_def using ascii(1) byte_range [of c0] by simp
next
  case err
  show ?thesis
    unfolding err fst_conv by (simp add: ValidRune_def RuneError_def MaxRune_def)
next
  case (two c1 t)
  show ?thesis
    unfolding two(6) fst_conv ValidRune_def using two(2-5) by simp
next
  case (three c1 c2 t)
  show ?thesis
    unfolding three(8) fst_conv ValidRune_def MaxRune_def
    using three_range [OF three(2-7)] by linarith
next
  case (four c1 c2 c3 t)
  show ?thesis
    unfolding four(10) fst_conv ValidRune_def MaxRune_def
    using four_range [OF four(2-9)] by linarith
qed

section \<open>Encoding and decoding are inverse\<close>

lemma Encode1: "0 \<le> r \<Longrightarrow> r \<le> 0x7F \<Longrightarrow> EncodeRune r = [char_of r]"
  by (simp add: EncodeRune_def)

lemma Encode2:
  "0x80 \<le> r \<Longrightarrow> r \<le> 0x7FF \<Longrightarrow>
   EncodeRune r = [char_of (0xC0 + r div 64), char_of (0x80 + r mod 64)]"
  by (simp add: EncodeRune_def)

lemma Encode3:
  "0x800 \<le> r \<Longrightarrow> r \<le> 0xFFFF \<Longrightarrow> \<not> (0xD800 \<le> r \<and> r \<le> 0xDFFF) \<Longrightarrow>
   EncodeRune r = [char_of (0xE0 + r div 4096), char_of (0x80 + (r div 64) mod 64),
                   char_of (0x80 + r mod 64)]"
  by (auto simp: EncodeRune_def MaxRune_def)

lemma Encode4:
  "0xFFFF < r \<Longrightarrow> r \<le> 0x10FFFF \<Longrightarrow>
   EncodeRune r = [char_of (0xF0 + r div 262144), char_of (0x80 + (r div 4096) mod 64),
                   char_of (0x80 + (r div 64) mod 64), char_of (0x80 + r mod 64)]"
  by (simp add: EncodeRune_def MaxRune_def)

lemma Encode_Decode:
  assumes "\<not> (fst (DecodeRuneInString (c0 # cs)) = RuneError
              \<and> snd (DecodeRuneInString (c0 # cs)) = 1)"
  shows "EncodeRune (fst (DecodeRuneInString (c0 # cs)))
           = take (snd (DecodeRuneInString (c0 # cs))) (c0 # cs)"
proof (cases rule: Decode_cases [of c0 cs])
  case ascii
  show ?thesis
    unfolding ascii(2) fst_conv snd_conv
    using ascii(1) byte_range [of c0] by (simp add: Encode1 char_of_byte)
next
  case err
  then show ?thesis using assms by simp
next
  case (two c1 t)
  let ?h = "byte c0 - 0xC0" and ?a = "byte c1 - 0x80"
  have a: "0 \<le> ?a" "?a < 64" using two(4,5) by simp_all
  have r: "0x80 \<le> ?h * 64 + ?a" "?h * 64 + ?a \<le> 0x7FF"
    using two(2-5) by simp_all
  show ?thesis
    unfolding two(6) fst_conv snd_conv Encode2 [OF r] digits2 [OF a]
    by (simp add: two(1) char_of_byte)
next
  case (three c1 c2 t)
  let ?h = "byte c0 - 0xE0" and ?a = "byte c1 - 0x80" and ?b = "byte c2 - 0x80"
  have c1: "0x80 \<le> byte c1" "byte c1 \<le> 0xBF"
    using three(4,5) by (simp_all add: acceptLo_def acceptHi_def split: if_splits)
  have a: "0 \<le> ?a" "?a < 64" "0 \<le> ?b" "?b < 64" using c1 three(6,7) by simp_all
  show ?thesis
    unfolding three(8) fst_conv snd_conv Encode3 [OF three_range [OF three(2-7)]]
      digits3 [OF a]
    by (simp add: three(1) char_of_byte)
next
  case (four c1 c2 c3 t)
  let ?h = "byte c0 - 0xF0" and ?a = "byte c1 - 0x80" and ?b = "byte c2 - 0x80"
    and ?c = "byte c3 - 0x80"
  have c1: "0x80 \<le> byte c1" "byte c1 \<le> 0xBF"
    using four(4,5) by (simp_all add: acceptLo_def acceptHi_def split: if_splits)
  have a: "0 \<le> ?a" "?a < 64" "0 \<le> ?b" "?b < 64" "0 \<le> ?c" "?c < 64"
    using c1 four(6-9) by simp_all
  show ?thesis
    unfolding four(10) fst_conv snd_conv Encode4 [OF four_range [OF four(2-9)]]
      digits4 [OF a]
    by (simp add: four(1) char_of_byte)
qed

lemma Decode_Encode:
  assumes "ValidRune r"
  shows "DecodeRuneInString (EncodeRune r @ t) = (r, length (EncodeRune r))"
proof -
  consider "0 \<le> r" "r \<le> 0x7F" | "0x80 \<le> r" "r \<le> 0x7FF"
    | "0x800 \<le> r" "r \<le> 0xFFFF" "\<not> (0xD800 \<le> r \<and> r \<le> 0xDFFF)"
    | "0xFFFF < r" "r \<le> 0x10FFFF"
    using assms unfolding ValidRune_def MaxRune_def by linarith
  then show ?thesis
  proof cases
    case 1
    then have "byte (char_of r) = r" by (simp add: byte_char_of)
    then show ?thesis
      using 1 by (simp add: Encode1)
  next
    case 2
    define h a where "h = r div 64" and "a = r mod 64"
    have r: "r = h * 64 + a" unfolding h_def a_def by simp
    have a: "0 \<le> a" "a < 64" unfolding a_def by simp_all
    have h: "2 \<le> h" "h \<le> 31" using 2 a unfolding r by linarith+
    have b0: "byte (char_of (0xC0 + h)) = 0xC0 + h"
      using h by (simp add: byte_char_of)
    have b1: "byte (char_of (0x80 + a)) = 0x80 + a"
      using a by (simp add: byte_char_of)
    have "DecodeRuneInString (char_of (0xC0 + h) # char_of (0x80 + a) # t)
            = ((byte (char_of (0xC0 + h)) - 0xC0) * 64 + (byte (char_of (0x80 + a)) - 0x80), 2)"
      by (rule Decode_two) (use h a in \<open>simp_all add: b0 b1\<close>)
    then show ?thesis
      unfolding Encode2 [OF 2] h_def [symmetric] a_def [symmetric] b0 b1
      by (simp add: r)
  next
    case 3
    define h a b where "h = r div 4096" and "a = (r div 64) mod 64" and "b = r mod 64"
    have r: "r = h * 4096 + a * 64 + b"
      unfolding h_def a_def b_def by (rule split4096)
    have a: "0 \<le> a" "a < 64" "0 \<le> b" "b < 64" unfolding a_def b_def by simp_all
    have h: "0 \<le> h" "h \<le> 15" using 3(1,2) a unfolding r by linarith+
    have lo: "h = 0 \<longrightarrow> 32 \<le> a" using 3(1) a unfolding r by auto
    have hi: "h = 13 \<longrightarrow> a \<le> 31" using 3(3) a unfolding r by auto
    have b0: "byte (char_of (0xE0 + h)) = 0xE0 + h"
      using h by (simp add: byte_char_of)
    have b1: "byte (char_of (0x80 + a)) = 0x80 + a"
      using a by (simp add: byte_char_of)
    have b2: "byte (char_of (0x80 + b)) = 0x80 + b"
      using a by (simp add: byte_char_of)
    have "DecodeRuneInString (char_of (0xE0 + h) # char_of (0x80 + a) # char_of (0x80 + b) # t)
            = ((byte (char_of (0xE0 + h)) - 0xE0) * 4096
                + (byte (char_of (0x80 + a)) - 0x80) * 64
                + (byte (char_of (0x80 + b)) - 0x80), 3)"
      by (rule Decode_three)
        (use h a lo hi in \<open>auto simp: b0 b1 b2 acceptLo_def acceptHi_def\<close>)
    then show ?thesis
      unfolding Encode3 [OF 3] h_def [symmetric] a_def [symmetric] b_def [symmetric] b0 b1 b2
      by (simp add: r)
  next
    case 4
    define h a b c where "h = r div 262144" and "a = (r div 4096) mod 64"
      and "b = (r div 64) mod 64" and "c = r mod 64"
    have r: "r = h * 262144 + a * 4096 + b * 64 + c"
      unfolding h_def a_def b_def c_def by (rule split262144)
    have a: "0 \<le> a" "a < 64" "0 \<le> b" "b < 64" "0 \<le> c" "c < 64"
      unfolding a_def b_def c_def by simp_all
    have h: "0 \<le> h" "h \<le> 4" using 4 a unfolding r by linarith+
    have lo: "h = 0 \<longrightarrow> 16 \<le> a" using 4(1) a unfolding r by auto
    have hi: "h = 4 \<longrightarrow> a \<le> 15" using 4(2) a unfolding r by auto
    have b0: "byte (char_of (0xF0 + h)) = 0xF0 + h"
      using h by (simp add: byte_char_of)
    have b1: "byte (char_of (0x80 + a)) = 0x80 + a"
      using a by (simp add: byte_char_of)
    have b2: "byte (char_of (0x80 + b)) = 0x80 + b"
      using a by (simp add: byte_char_of)
    have b3: "byte (char_of (0x80 + c)) = 0x80 + c"
      using a by (simp add: byte_char_of)
    have "DecodeRuneInString
            (char_of (0xF0 + h) # char_of (0x80 + a) # char_of (0x80 + b) # char_of (0x80 + c) # t)
            = ((byte (char_of (0xF0 + h)) - 0xF0) * 262144
                + (byte (char_of (0x80 + a)) - 0x80) * 4096
                + (byte (char_of (0x80 + b)) - 0x80) * 64
                + (byte (char_of (0x80 + c)) - 0x80), 4)"
      by (rule Decode_four)
        (use h a lo hi in \<open>auto simp: b0 b1 b2 b3 acceptLo_def acceptHi_def\<close>)
    then show ?thesis
      unfolding Encode4 [OF 4] h_def [symmetric] a_def [symmetric] b_def [symmetric]
        c_def [symmetric] b0 b1 b2 b3
      by (simp add: r)
  qed
qed

section \<open>Strings and rune slices\<close>

lemma EncodeRune_nonempty: "EncodeRune r \<noteq> []"
  by (simp add: EncodeRune_def)

lemma runesToString_Nil [simp]: "runesToString [] = []"
  by (simp add: runesToString_def)

lemma runesToString_Cons [simp]: "runesToString (r # rs) = EncodeRune r @ runesToString rs"
  by (simp add: runesToString_def)

lemma runesToString_empty_iff: "runesToString rs = [] \<longleftrightarrow> rs = []"
  by (cases rs) (simp_all add: EncodeRune_nonempty)

lemma stringToRunes_empty_iff: "stringToRunes s = [] \<longleftrightarrow> s = []"
  by (cases s) simp_all

lemma Decode_width: "1 \<le> snd (DecodeRuneInString (c # cs))"
  by (simp add: Let_def)

lemma stringToRunes_valid: "list_all ValidRune (stringToRunes s)"
proof (induction s rule: stringToRunes.induct)
  case 1
  show ?case by simp
next
  case (2 c cs)
  then show ?case
    by (simp add: Decode_ValidRune del: DecodeRuneInString.simps)
qed

lemma stringToRunes_length: "length (stringToRunes s) \<le> length s"
proof (induction s rule: stringToRunes.induct)
  case 1
  show ?case by simp
next
  case (2 c cs)
  have "length (stringToRunes (c # cs))
          = Suc (length (stringToRunes (drop (snd (DecodeRuneInString (c # cs))) (c # cs))))"
    by (simp del: DecodeRuneInString.simps)
  also have "\<dots> \<le> Suc (length (drop (snd (DecodeRuneInString (c # cs))) (c # cs)))"
    using 2 by simp
  also have "\<dots> \<le> length (c # cs)"
    using Decode_width [of c cs] by (simp del: DecodeRuneInString.simps)
  finally show ?case .
qed

lemma stringToRunes_encode:
  assumes "ValidRune r"
  shows "stringToRunes (EncodeRune r @ t) = r # stringToRunes t"
proof -
  obtain c cs where e: "EncodeRune r = c # cs"
    using EncodeRune_nonempty [of r] by (cases "EncodeRune r") auto
  have d: "DecodeRuneInString ((c # cs) @ t) = (r, length (c # cs))"
    using Decode_Encode [OF assms, of t] unfolding e .
  have "stringToRunes ((c # cs) @ t)
          = fst (DecodeRuneInString ((c # cs) @ t))
              # stringToRunes (drop (snd (DecodeRuneInString ((c # cs) @ t))) ((c # cs) @ t))"
    by (simp del: DecodeRuneInString.simps)
  also have "\<dots> = r # stringToRunes t"
    unfolding d by simp
  finally show ?thesis unfolding e .
qed

lemma stringToRunes_runesToString:
  "list_all ValidRune rs \<Longrightarrow> stringToRunes (runesToString rs) = rs"
  by (induction rs) (simp_all add: stringToRunes_encode)

lemma runesToString_stringToRunes:
  "ValidString s \<Longrightarrow> runesToString (stringToRunes s) = s"
proof (induction s rule: stringToRunes.induct)
  case 1
  show ?case by simp
next
  case (2 c cs)
  let ?d = "DecodeRuneInString (c # cs)"
  from "2.prems" have ok: "\<not> (fst ?d = RuneError \<and> snd ?d = 1)"
    and rest: "ValidString (drop (snd ?d) (c # cs))"
    by (simp_all del: DecodeRuneInString.simps)
  have "runesToString (stringToRunes (c # cs))
          = EncodeRune (fst ?d) @ runesToString (stringToRunes (drop (snd ?d) (c # cs)))"
    by (simp del: DecodeRuneInString.simps)
  also have "\<dots> = take (snd ?d) (c # cs) @ drop (snd ?d) (c # cs)"
    using "2.IH" [OF rest] Encode_Decode [OF ok] by simp
  finally show ?case by simp
qed

lemma stringToRunes_ascii: "isASCII s \<Longrightarrow> stringToRunes s = map byte s"
proof (induction s)
  case Nil
  show ?case by simp
next
  case (Cons c cs)
  then have "byte c < 0x80" "isASCII cs" by (simp_all add: isASCII_def)
  then show ?case using Cons.IH by (simp add: Decode_ascii del: DecodeRuneInString.simps)
qed

lemma runesToString_ascii: "isASCII s \<Longrightarrow> runesToString (map byte s) = s"
proof (induction s)
  case Nil
  show ?case by simp
next
  case (Cons c cs)
  then have c: "byte c < 0x80" and "isASCII cs" by (simp_all add: isASCII_def)
  then show ?case
    using Cons.IH byte_range [of c] by (simp add: Encode1 char_of_byte)
qed

lemma isASCII_take: "isASCII s \<Longrightarrow> isASCII (take n s)"
  unfolding isASCII_def list_all_iff by (auto dest: in_set_takeD)

section \<open>The loop of \<^verbatim>\<open>Reverse\<close>\<close>

text \<open>
  After \<open>i\<close> iterations the first and the last \<open>i\<close> runes are in place and the middle
  segment is still to be reversed; no index leaves the slice.
\<close>

lemma reverse_loop_middle:
  "length a = length b \<Longrightarrow>
   reverse_loop (int (length a)) (int (length a + length m) - 1) (a @ m @ b)
     = Inr (a @ rev m @ b)"
proof (induction "length m" arbitrary: a m b rule: less_induct)
  case less
  show ?case
  proof (cases "length m < 2")
    case True
    then have rm: "rev m = m"
      by (cases m) (auto simp: Suc_less_eq2)
    have "\<not> int (length a) < int (length (a @ m @ b)) div 2"
      using True less.prems by auto
    then show ?thesis
      by (subst reverse_loop.simps) (simp add: rm)
  next
    case False
    then obtain x m1 where m1: "m = x # m1" and "m1 \<noteq> []"
      by (cases m) auto
    then obtain m' y where m': "m1 = m' @ [y]"
      by (metis rev_exhaust)
    have m: "m = x # m' @ [y]" by (simp add: m1 m')
    let ?r = "a @ m @ b"
    let ?i = "int (length a)"
    let ?j = "int (length a + length m) - 1"
    have cond: "?i < int (length ?r) div 2"
      using less.prems by (simp add: m)
    have rng: "0 \<le> ?i \<and> ?i < int (length ?r) \<and> 0 \<le> ?j \<and> ?j < int (length ?r)"
      by (simp add: m)
    have ni: "nat ?i = length a" by simp
    have nj: "nat ?j = length (a @ x # m')" by (simp add: m)
    have r1: "?r = a @ x # (m' @ y # b)" by (simp add: m)
    have r2: "?r = (a @ x # m') @ y # b" by (simp add: m)
    have ri: "?r ! nat ?i = x"
      unfolding ni by (subst r1) (rule nth_append_length)
    have rj: "?r ! nat ?j = y"
      unfolding nj by (subst r2) (rule nth_append_length)
    have u1: "?r[nat ?i := y] = (a @ y # m') @ y # b"
      unfolding ni by (subst r1) (simp add: list_update_append m)
    have u2: "?r[nat ?i := y, nat ?j := x] = (a @ [y]) @ m' @ (x # b)"
    proof -
      have "nat ?j = length (a @ y # m')" by (simp add: m)
      then show ?thesis
        unfolding u1 by (simp only: list_update_length) simp
    qed
    have step: "reverse_loop ?i ?j ?r = reverse_loop (?i + 1) (?j - 1) ((a @ [y]) @ m' @ (x # b))"
      by (subst reverse_loop.simps) (simp only: cond rng if_True ri rj u2 simp_thms)
    have idx: "?i + 1 = int (length (a @ [y]))"
              "?j - 1 = int (length (a @ [y]) + length m') - 1"
      by (simp_all add: m)
    have "reverse_loop (int (length (a @ [y]))) (int (length (a @ [y]) + length m') - 1)
            ((a @ [y]) @ m' @ (x # b)) = Inr ((a @ [y]) @ rev m' @ (x # b))"
      by (rule less.hyps) (simp_all add: m less.prems)
    then show ?thesis
      unfolding step idx by (simp add: m)
  qed
qed

lemma reverse_loop_rev:
  "reverse_loop 0 (int (length r) - 1) r = Inr (rev r)"
  using reverse_loop_middle [of "[]" "[]" r] by simp

lemma Reverse_eq:
  assumes "s \<noteq> []"
  shows "stringService_Reverse s = Inr (runesToString (rev (stringToRunes s)), None)"
  using assms by (simp add: stringService_Reverse_def Let_def reverse_loop_rev)

lemma Reverse_twice:
  assumes "s \<noteq> []"
  shows "\<exists>v. stringService_Reverse s = Inr (v, None)
           \<and> stringService_Reverse v = Inr (runesToString (stringToRunes s), None)"
proof -
  let ?v = "runesToString (rev (stringToRunes s))"
  have "stringToRunes s \<noteq> []"
    using assms by (simp add: stringToRunes_empty_iff)
  then have ne: "?v \<noteq> []"
    by (simp add: runesToString_empty_iff)
  have "list_all ValidRune (rev (stringToRunes s))"
    using stringToRunes_valid [of s] by (simp add: list_all_iff)
  then have dec: "stringToRunes ?v = rev (stringToRunes s)"
    by (rule stringToRunes_runesToString)
  have "stringService_Reverse ?v = Inr (runesToString (stringToRunes s), None)"
    unfolding Reverse_eq [OF ne] dec by simp
  then show ?thesis
    using Reverse_eq [OF assms] by simp
qed

section \<open>Count\<close>

text \<open>
  \<^verbatim>\<open>Count\<close> is not the number of code points: the two bytes \<^verbatim>\<open>C3 A9\<close> encode the single
  code point U+00E9, and \<^verbatim>\<open>Count\<close> answers 2.
\<close>

theorem Count_code_points_counterexample:
  "stringService_Count [CHR 0xC3, CHR 0xA9] = 2
   \<and> RuneCountInString [CHR 0xC3, CHR 0xA9] = 1
   \<and> stringService_Count [CHR 0xC3, CHR 0xA9] \<noteq> RuneCountInString [CHR 0xC3, CHR 0xA9]"
  by code_simp

text \<open>
  Claim C1, amended. For every string \<open>s\<close>, \<^verbatim>\<open>Count(s)\<close> is the number of bytes of \<open>s\<close>;
  \<^verbatim>\<open>Count("")\<close> is 0, and \<^verbatim>\<open>Count\<close> has no failing branch. The number of code points
  of \<open>s\<close> is at most \<^verbatim>\<open>Count(s)\<close>, and equal to it when \<open>s\<close> is ASCII.
\<close>

theorem Count_bytes:
  "stringService_Count s = int (length s)
   \<and> stringService_Count [] = 0
   \<and> RuneCountInString s \<le> stringService_Count s
   \<and> (isASCII s \<longrightarrow> stringService_Count s = RuneCountInString s)"
  using stringToRunes_length [of s]
  by (simp add: stringService_Count_def RuneCountInString_def stringToRunes_ascii)

theorem Count_bytes_witness:
  "isASCII ''hello'' \<and> stringService_Count ''hello'' = 5 \<and> RuneCountInString ''hello'' = 5"
proof -
  have h: "isASCII ''hello''" by code_simp
  have c: "stringService_Count ''hello'' = 5" by (simp add: stringService_Count_def)
  show ?thesis using h c Count_bytes [of "''hello''"] by simp
qed

text \<open>
  Claim C10. \<^verbatim>\<open>Count\<close> of a concatenation is the sum of the counts: \<^verbatim>\<open>Count\<close> maps
  concatenation of strings to addition of integers.
\<close>

theorem Count_append:
  "stringService_Count (a @ b) = stringService_Count a + stringService_Count b"
  by (simp add: stringService_Count_def)

theorem Count_append_witness:
  "stringService_Count (''hel'' @ ''lo'') = 3 + 2"
  using Count_append [of "''hel''" "''lo''"] by (simp add: stringService_Count_def)

section \<open>Truncate\<close>

text \<open>
  Claim C2. For a non-empty string \<open>s\<close> and a bound \<open>l\<close> that is negative or greater than
  the length \<^verbatim>\<open>len(s)\<close>, \<^verbatim>\<open>Truncate(s, l)\<close> returns nothing: the slice expression
  \<^verbatim>\<open>s[:l]\<close> panics with a bound out of range.
\<close>

theorem Truncate_out_of_range_panics:
  assumes "s \<noteq> []" and "l < 0 \<or> int (length s) < l"
  shows "stringService_Truncate s l = Inl SliceBoundsOutOfRange"
  using assms by (auto simp: stringService_Truncate_def slice_to_def)

theorem Truncate_out_of_range_panics_witness:
  "''hello'' \<noteq> [] \<and> ((10::int) < 0 \<or> int (length ''hello'') < 10)
   \<and> stringService_Truncate ''hello'' 10 = Inl SliceBoundsOutOfRange"
  using Truncate_out_of_range_panics [of "''hello''" 10] by simp

text \<open>
  \<^verbatim>\<open>Truncate\<close> cuts bytes, not characters: on the two bytes \<^verbatim>\<open>C3 A9\<close> (one code point)
  and \<open>l = 1\<close> it returns the single byte \<^verbatim>\<open>C3\<close>, while the first character of the
  string is the whole string.
\<close>

theorem Truncate_characters_counterexample:
  "[CHR 0xC3, CHR 0xA9] \<noteq> [] \<and> (0::int) \<le> 1 \<and> 1 \<le> RuneCountInString [CHR 0xC3, CHR 0xA9]
   \<and> stringService_Truncate [CHR 0xC3, CHR 0xA9] 1 = Inr ([CHR 0xC3], None)
   \<and> runesToString (take (nat 1) (stringToRunes [CHR 0xC3, CHR 0xA9])) = [CHR 0xC3, CHR 0xA9]
   \<and> stringService_Truncate [CHR 0xC3, CHR 0xA9] 1
       \<noteq> Inr (runesToString (take (nat 1) (stringToRunes [CHR 0xC3, CHR 0xA9])), None)"
  by code_simp

text \<open>
  Claim C3, amended. For a non-empty string \<open>s\<close> and \<open>0 \<le> l \<le>\<close> the number of characters
  of \<open>s\<close>, \<^verbatim>\<open>Truncate(s, l)\<close> succeeds and returns the first \<open>l\<close> bytes of \<open>s\<close>; they are
  the first \<open>l\<close> characters of \<open>s\<close> when \<open>s\<close> is ASCII.
\<close>

theorem Truncate_bytes:
  assumes "s \<noteq> []" and "0 \<le> l" and "l \<le> RuneCountInString s"
  shows "stringService_Truncate s l = Inr (take (nat l) s, None)
         \<and> (isASCII s \<longrightarrow>
               take (nat l) s = runesToString (take (nat l) (stringToRunes s)))"
proof -
  have "l \<le> int (length s)"
    using assms(3) stringToRunes_length [of s] by (simp add: RuneCountInString_def)
  then have "stringService_Truncate s l = Inr (take (nat l) s, None)"
    using assms(1,2) by (simp add: stringService_Truncate_def slice_to_def)
  moreover have "take (nat l) s = runesToString (take (nat l) (stringToRunes s))" if "isASCII s"
  proof -
    have "take (nat l) (stringToRunes s) = map byte (take (nat l) s)"
      using that by (simp add: stringToRunes_ascii take_map)
    then show ?thesis
      using isASCII_take [OF that, of "nat l"] by (simp add: runesToString_ascii)
  qed
  ultimately show ?thesis by blast
qed

theorem Truncate_bytes_witness:
  "''hello'' \<noteq> [] \<and> (0::int) \<le> 3 \<and> 3 \<le> RuneCountInString ''hello'' \<and> isASCII ''hello''
   \<and> stringService_Truncate ''hello'' 3 = Inr (''hel'', None)
   \<and> ''hel'' = runesToString (take (nat 3) (stringToRunes ''hello''))"
proof -
  have h1: "''hello'' \<noteq> []" by simp
  have h2: "(0::int) \<le> 3" by simp
  have h3: "3 \<le> RuneCountInString ''hello''" by code_simp
  have h4: "isASCII ''hello''" by code_simp
  have t: "take (nat 3) ''hello'' = ''hel''" by code_simp
  show ?thesis
    using h1 h2 h3 h4 Truncate_bytes [OF h1 h2 h3] unfolding t by simp
qed

text \<open>
  Claim C6. For a non-empty string \<open>s\<close>, \<^verbatim>\<open>Truncate(s, len(s))\<close> is \<open>s\<close> and
  \<^verbatim>\<open>Truncate(s, 0)\<close> is the empty string, both with a nil error. The length is the one
  the service's own \<^verbatim>\<open>Count\<close> reports.
\<close>

theorem Truncate_full_and_zero:
  assumes "s \<noteq> []"
  shows "stringService_Truncate s (stringService_Count s) = Inr (s, None)
         \<and> stringService_Truncate s 0 = Inr ([], None)"
  using assms by (simp add: stringService_Truncate_def slice_to_def stringService_Count_def)

theorem Truncate_full_and_zero_witness:
  "''hello'' \<noteq> [] \<and> stringService_Count ''hello'' = 5
   \<and> stringService_Truncate ''hello'' 5 = Inr (''hello'', None)
   \<and> stringService_Truncate ''hello'' 0 = Inr ([], None)"
  using Truncate_full_and_zero [of "''hello''"] by (simp add: stringService_Count_def)

text \<open>
  Claim C9. For a non-empty string \<open>s\<close> and \<open>0 \<le> l \<le> len(s)\<close> (bytes), \<^verbatim>\<open>Truncate(s, l)\<close>
  succeeds with a value \<open>v\<close> of exactly \<open>l\<close> bytes, and \<open>v\<close> followed by the rest of \<open>s\<close>
  is \<open>s\<close>: \<open>v\<close> is the prefix of \<open>s\<close> of byte length \<open>l\<close>.
\<close>

theorem Truncate_prefix:
  assumes "s \<noteq> []" and "0 \<le> l" and "l \<le> int (length s)"
  shows "\<exists>v. stringService_Truncate s l = Inr (v, None)
           \<and> v @ drop (nat l) s = s \<and> int (length v) = l"
  using assms by (auto simp: stringService_Truncate_def slice_to_def)

theorem Truncate_prefix_witness:
  "''hello'' \<noteq> [] \<and> (0::int) \<le> 3 \<and> (3::int) \<le> int (length ''hello'')
   \<and> stringService_Truncate ''hello'' 3 = Inr (''hel'', None)
   \<and> ''hel'' @ drop (nat 3) ''hello'' = ''hello'' \<and> int (length ''hel'') = 3"
  using Truncate_prefix [of "''hello''" 3]
  by (simp add: stringService_Truncate_def slice_to_def)

section \<open>Reverse\<close>

text \<open>
  \<^verbatim>\<open>Reverse\<close> is not an involution on every non-empty string: the byte \<^verbatim>\<open>FF\<close> is no
  UTF-8, \<^verbatim>\<open>[]rune\<close> reads it as U+FFFD, and \<^verbatim>\<open>Reverse\<close> returns the three bytes
  \<^verbatim>\<open>EF BF BD\<close>, which reverse to themselves.
\<close>

theorem Reverse_involution_counterexample:
  "[CHR 0xFF] \<noteq> []
   \<and> stringService_Reverse [CHR 0xFF] = Inr ([CHR 0xEF, CHR 0xBF, CHR 0xBD], None)
   \<and> stringService_Reverse [CHR 0xEF, CHR 0xBF, CHR 0xBD]
       = Inr ([CHR 0xEF, CHR 0xBF, CHR 0xBD], None)
   \<and> [CHR 0xEF, CHR 0xBF, CHR 0xBD] \<noteq> [CHR 0xFF]"
  by code_simp

text \<open>
  Claim C4, amended. For every non-empty string \<open>s\<close> of valid UTF-8, \<^verbatim>\<open>Reverse(s)\<close>
  succeeds with some \<open>v\<close> and \<^verbatim>\<open>Reverse(v)\<close> succeeds with \<open>s\<close>.
\<close>

theorem Reverse_involution_valid:
  assumes "s \<noteq> []" and "ValidString s"
  shows "\<exists>v. stringService_Reverse s = Inr (v, None)
           \<and> stringService_Reverse v = Inr (s, None)"
  using Reverse_twice [OF assms(1)] runesToString_stringToRunes [OF assms(2)] by simp

theorem Reverse_involution_valid_witness:
  "[CHR ''h'', CHR 0xC3, CHR 0xA9, CHR ''!''] \<noteq> []
   \<and> ValidString [CHR ''h'', CHR 0xC3, CHR 0xA9, CHR ''!'']
   \<and> (\<exists>v. stringService_Reverse [CHR ''h'', CHR 0xC3, CHR 0xA9, CHR ''!''] = Inr (v, None)
           \<and> stringService_Reverse v = Inr ([CHR ''h'', CHR 0xC3, CHR 0xA9, CHR ''!''], None))"
proof -
  have h1: "[CHR ''h'', CHR 0xC3, CHR 0xA9, CHR ''!''] \<noteq> []" by simp
  have h2: "ValidString [CHR ''h'', CHR 0xC3, CHR 0xA9, CHR ''!'']" by code_simp
  show ?thesis
    using h1 h2 Reverse_involution_valid [OF h1 h2] by blast
qed

section \<open>Uppercase\<close>

lemma unicode_ToUpper_ascii:
  assumes "0 \<le> r" "r \<le> 0x7F"
  shows "0 \<le> unicode_ToUpper caseTo r" "unicode_ToUpper caseTo r \<le> 0x7F"
    and "\<not> (0x61 \<le> unicode_ToUpper caseTo r \<and> unicode_ToUpper caseTo r \<le> 0x7A)"
    and "unicode_ToUpper caseTo (unicode_ToUpper caseTo r) = unicode_ToUpper caseTo r"
  using assms by (auto simp: unicode_ToUpper_def)

lemma ToUpper_ascii:
  "isASCII s \<Longrightarrow>
   strings_ToUpper caseTo s = map (\<lambda>c. char_of (unicode_ToUpper caseTo (byte c))) s"
proof (induction s)
  case Nil
  show ?case by (simp add: strings_ToUpper_def strings_Map_def)
next
  case (Cons c cs)
  then have c: "0 \<le> byte c" "byte c \<le> 0x7F" and cs: "isASCII cs"
    using byte_range [of c] by (simp_all add: isASCII_def)
  have ih: "runesToString (filter (\<lambda>r. 0 \<le> r) (map (unicode_ToUpper caseTo) (map byte cs)))
              = map (\<lambda>c. char_of (unicode_ToUpper caseTo (byte c))) cs"
    using Cons.IH [OF cs] by (simp add: strings_ToUpper_def strings_Map_def stringToRunes_ascii cs)
  have "strings_ToUpper caseTo (c # cs)
          = runesToString (filter (\<lambda>r. 0 \<le> r)
              (map (unicode_ToUpper caseTo) (map byte (c # cs))))"
    using Cons.prems by (simp only: strings_ToUpper_def strings_Map_def stringToRunes_ascii)
  also have "\<dots> = EncodeRune (unicode_ToUpper caseTo (byte c))
                 @ runesToString (filter (\<lambda>r. 0 \<le> r)
                     (map (unicode_ToUpper caseTo) (map byte cs)))"
    using unicode_ToUpper_ascii(1) [OF c, of caseTo] by simp
  also have "\<dots> = char_of (unicode_ToUpper caseTo (byte c))
                 # map (\<lambda>c. char_of (unicode_ToUpper caseTo (byte c))) cs"
    unfolding ih using unicode_ToUpper_ascii(1,2) [OF c, of caseTo] by (simp add: Encode1)
  finally show ?case by simp
qed

text \<open>
  Claim C7. For every non-empty ASCII string \<open>s\<close>, \<^verbatim>\<open>Uppercase(s)\<close> succeeds with a value
  \<open>v\<close> that has no lowercase letter, and \<^verbatim>\<open>Uppercase(v)\<close> is \<open>v\<close> again. This holds
  whatever the Unicode case tables are; \<open>v\<close> is ASCII and as long as \<open>s\<close>.
\<close>

theorem Uppercase_ascii:
  assumes "s \<noteq> []" and "isASCII s"
  shows "\<exists>v. stringService_Uppercase caseTo s = (v, None)
           \<and> length v = length s \<and> isASCII v \<and> \<not> list_ex asciiLower v
           \<and> stringService_Uppercase caseTo v = (v, None)"
proof -
  let ?up = "\<lambda>c. char_of (unicode_ToUpper caseTo (byte c))"
  let ?v = "map ?up s"
  have up: "byte (?up c) = unicode_ToUpper caseTo (byte c)" if "c \<in> set s" for c
  proof -
    have c: "0 \<le> byte c" "byte c \<le> 0x7F"
      using that assms(2) byte_range [of c] by (auto simp: isASCII_def list_all_iff)
    show ?thesis
      using unicode_ToUpper_ascii(1,2) [OF c, of caseTo] by (simp add: byte_char_of)
  qed
  have rng: "0 \<le> byte c \<and> byte c \<le> 0x7F" if "c \<in> set s" for c
    using that assms(2) byte_range [of c] by (auto simp: isASCII_def list_all_iff)
  have first: "stringService_Uppercase caseTo s = (?v, None)"
    using assms by (simp add: stringService_Uppercase_def ToUpper_ascii)
  have ascii: "isASCII ?v"
    unfolding isASCII_def list_all_iff
  proof
    fix d assume "d \<in> set ?v"
    then obtain c where c: "c \<in> set s" and d: "d = ?up c" by auto
    show "byte d < 0x80"
      unfolding d up [OF c] using unicode_ToUpper_ascii(2) [of "byte c" caseTo] rng [OF c]
      by simp
  qed
  have nolower: "\<not> list_ex asciiLower ?v"
    unfolding list_ex_iff
  proof
    assume "\<exists>d\<in>set ?v. asciiLower d"
    then obtain c where c: "c \<in> set s" and l: "asciiLower (?up c)" by auto
    show False
      using l unicode_ToUpper_ascii(3) [of "byte c" caseTo] rng [OF c]
      unfolding asciiLower_def up [OF c] by simp
  qed
  have idem: "map ?up ?v = ?v"
  proof -
    have "?up (?up c) = ?up c" if "c \<in> set s" for c
      unfolding up [OF that]
      using unicode_ToUpper_ascii(4) [of "byte c" caseTo] rng [OF that] by simp
    then show ?thesis by simp
  qed
  have "?v \<noteq> []" using assms(1) by simp
  then have second: "stringService_Uppercase caseTo ?v = (?v, None)"
    using ascii idem by (simp add: stringService_Uppercase_def ToUpper_ascii)
  show ?thesis
    using first ascii nolower second by (intro exI [of _ ?v]) simp
qed

theorem Uppercase_ascii_witness:
  "''hello'' \<noteq> [] \<and> isASCII ''hello''
   \<and> (\<exists>v. stringService_Uppercase (\<lambda>r. r) ''hello'' = (v, None)
           \<and> length v = length ''hello'' \<and> isASCII v \<and> \<not> list_ex asciiLower v
           \<and> stringService_Uppercase (\<lambda>r. r) v = (v, None))"
proof -
  have h1: "''hello'' \<noteq> []" by simp
  have h2: "isASCII ''hello''" by code_simp
  show ?thesis
    using h1 h2 Uppercase_ascii [OF h1 h2, of "\<lambda>r. r"] by blast
qed

section \<open>The empty string\<close>

text \<open>
  Claim C5. \<^verbatim>\<open>Uppercase("")\<close>, \<^verbatim>\<open>Reverse("")\<close> and \<^verbatim>\<open>Truncate("", l)\<close>, for every \<open>l\<close>,
  return the empty string with the error \<^verbatim>\<open>ErrEmpty\<close>, whose message is
  \<^verbatim>\<open>"empty string"\<close>; the endpoints answer with the envelope
  \<^verbatim>\<open>{v: "", err: "empty string"}\<close> and a nil transport-level error.
\<close>

theorem empty_input_ErrEmpty:
  "stringService_Uppercase caseTo [] = ([], Some ErrEmpty)
   \<and> stringService_Reverse [] = Inr ([], Some ErrEmpty)
   \<and> stringService_Truncate [] l = Inr ([], Some ErrEmpty)
   \<and> Error ErrEmpty = ''empty string''
   \<and> makeUppercaseEndpoint (stringService caseTo) (StringRequest \<lparr>stringRequest.S = []\<rparr>)
       = Inr (UppercaseResponse \<lparr>uppercaseResponse.V = [], Err = ''empty string''\<rparr>, None)
   \<and> makeReverseEndpoint (stringService caseTo) (StringRequest \<lparr>stringRequest.S = []\<rparr>)
       = Inr (UppercaseResponse \<lparr>uppercaseResponse.V = [], Err = ''empty string''\<rparr>, None)
   \<and> makeTruncateEndpoint (stringService caseTo) (TruncateRequest \<lparr>truncateRequest.S = [], L = l\<rparr>)
       = Inr (TruncateResponse \<lparr>truncateResponse.V = [], Err = ''empty string''\<rparr>, None)"
  by (simp add: stringService_Uppercase_def stringService_Reverse_def
      stringService_Truncate_def ErrEmpty_def makeUppercaseEndpoint_def
      makeReverseEndpoint_def makeTruncateEndpoint_def stringService_def)

theorem empty_input_ErrEmpty_witness:
  "stringService_Truncate [] (-7) = Inr ([], Some ErrEmpty)
   \<and> makeTruncateEndpoint (stringService (\<lambda>r. r)) (TruncateRequest \<lparr>truncateRequest.S = [], L = 99\<rparr>)
       = Inr (TruncateResponse \<lparr>truncateResponse.V = [], Err = ''empty string''\<rparr>, None)"
  using empty_input_ErrEmpty [of "\<lambda>r. r" "-7"] empty_input_ErrEmpty [of "\<lambda>r. r" 99]
  by simp

section \<open>Endpoints\<close>

text \<open>
  On a request of their type the uppercase, count and reverse endpoints always return
  an envelope and a nil error, and so does the truncate endpoint when the string is
  empty or the bound is within the string.
\<close>

lemma uppercase_endpoint_returns:
  "makeUppercaseEndpoint (stringService caseTo) (StringRequest req)
     = Inr (UppercaseResponse
         \<lparr>uppercaseResponse.V = fst (stringService_Uppercase caseTo (stringRequest.S req)),
          Err = (case snd (stringService_Uppercase caseTo (stringRequest.S req)) of
                   None \<Rightarrow> [] | Some e \<Rightarrow> Error e)\<rparr>, None)"
  by (simp add: makeUppercaseEndpoint_def stringService_def split: prod.splits option.splits)

lemma count_endpoint_returns:
  "makeCountEndpoint (stringService caseTo) (StringRequest req)
     = Inr (CountResponse \<lparr>countResponse.V = stringService_Count (stringRequest.S req)\<rparr>, None)"
  by (simp add: makeCountEndpoint_def stringService_def)

lemma reverse_endpoint_returns:
  "makeReverseEndpoint (stringService caseTo) (StringRequest req)
     = Inr (UppercaseResponse
         \<lparr>uppercaseResponse.V = runesToString (rev (stringToRunes (stringRequest.S req))),
          Err = (if stringRequest.S req = [] then ''empty string'' else [])\<rparr>, None)"
proof (cases "stringRequest.S req = []")
  case True
  then show ?thesis
    by (simp add: makeReverseEndpoint_def stringService_def stringService_Reverse_def ErrEmpty_def)
next
  case False
  then show ?thesis
    by (simp add: makeReverseEndpoint_def stringService_def Reverse_eq)
qed

lemma truncate_endpoint_returns:
  assumes "truncateRequest.S req = [] \<or> (0 \<le> L req \<and> L req \<le> int (length (truncateRequest.S req)))"
  shows "makeTruncateEndpoint (stringService caseTo) (TruncateRequest req)
     = Inr (TruncateResponse
         \<lparr>truncateResponse.V = (if truncateRequest.S req = [] then []
                                  else take (nat (L req)) (truncateRequest.S req)),
          Err = (if truncateRequest.S req = [] then ''empty string'' else [])\<rparr>, None)"
  using assms
  by (auto simp: makeTruncateEndpoint_def stringService_def stringService_Truncate_def
      slice_to_def ErrEmpty_def)

text \<open>
  Claim C8. The claim is that every endpoint, on a request of its type, returns an
  envelope with a nil transport-level error. The truncate endpoint does not on
  \<^verbatim>\<open>{"s": "hello", "l": 10}\<close>: \<^verbatim>\<open>Truncate\<close> panics in the unchecked slice (the source
  marks the missing check of \<open>l\<close> with a todo comment), the endpoint has no recover, and
  no envelope is returned.
\<close>

theorem truncate_endpoint_panics:
  "makeTruncateEndpoint (stringService caseTo)
     (TruncateRequest \<lparr>truncateRequest.S = ''hello'', L = 10\<rparr>) = Inl SliceBoundsOutOfRange"
  by (simp add: makeTruncateEndpoint_def stringService_def stringService_Truncate_def slice_to_def)

end
